theory Spec2Isabelle
  imports Complex_Main "HOL-Library.Word"
begin

text \<open>
  A shallow embedding of the batched text-to-speech pipeline of the EdgeOne edge functions:
  the text chunker (\<^verbatim>\<open>utils/text-processing.js\<close>), the batch scheduler with its two
  response modes (\<^verbatim>\<open>lib/tts.js\<close>) and the token cache (\<^verbatim>\<open>lib/auth.js\<close>).
  Network replies, clock readings and completion times are inputs of the model; every
  \<^verbatim>\<open>throw\<close> of the source is a value \<open>Inl\<close> of a sum type, and every loop whose step
  is chosen by the caller is a \<^theory_text>\<open>partial_function\<close> in the option monad, where
  \<open>None\<close> stands for a loop that does not return.
\<close>

section \<open>Text chunking (utils/text-processing.js)\<close>

text \<open>
  A JavaScript string is a sequence of UTF-16 code units, and \<^verbatim>\<open>length\<close> counts code
  units. The separators of the regular expression in \<^verbatim>\<open>smartChunkText\<close>,
  \<^verbatim>\<open>[.?!,;:\n...\r]\<close>, are the ASCII marks \<^verbatim>\<open>. ? ! , ; :\<close>, line feed, carriage
  return, and the six full-width marks U+3002, U+FF1F, U+FF01, U+FF0C, U+FF1B, U+FF1A.
  \<^verbatim>\<open>String.prototype.trim\<close> removes the ECMAScript white space and line terminator
  code units listed in \<open>isWhiteSpace\<close>.
\<close>

type_synonym jsstring = "16 word list"

definition isDelimiter :: "16 word \<Rightarrow> bool" where
  "isDelimiter c \<longleftrightarrow>
     List.member [0x2E, 0x3F, 0x21, 0x2C, 0x3B, 0x3A, 0x0A,
                  0x3002, 0xFF1F, 0xFF01, 0xFF0C, 0xFF1B, 0xFF1A, 0x0D] c"

definition isWhiteSpace :: "16 word \<Rightarrow> bool" where
  "isWhiteSpace c \<longleftrightarrow>
     List.member [0x09, 0x0A, 0x0B, 0x0C, 0x0D, 0x20, 0xA0, 0x1680,
                  0x2000, 0x2001, 0x2002, 0x2003, 0x2004, 0x2005, 0x2006, 0x2007,
                  0x2008, 0x2009, 0x200A, 0x2028, 0x2029, 0x202F, 0x205F, 0x3000, 0xFEFF] c"

definition trim :: "jsstring \<Rightarrow> jsstring" where
  "trim s = rev (dropWhile isWhiteSpace (rev (dropWhile isWhiteSpace s)))"

text \<open>
  \<^verbatim>\<open>text.split(/([separators]+)/g)\<close>: the separator runs are captured, so the result
  alternates between a (possibly empty) run of ordinary code units and a non-empty run of
  separators, and starts and ends with an ordinary run.
\<close>

function split_sentences :: "jsstring \<Rightarrow> jsstring list" where
  "split_sentences text =
     (if dropWhile (\<lambda>c. \<not> isDelimiter c) text = []
      then [takeWhile (\<lambda>c. \<not> isDelimiter c) text]
      else takeWhile (\<lambda>c. \<not> isDelimiter c) text #
           takeWhile isDelimiter (dropWhile (\<lambda>c. \<not> isDelimiter c) text) #
           split_sentences (dropWhile isDelimiter (dropWhile (\<lambda>c. \<not> isDelimiter c) text)))"
  by pat_completeness auto

termination split_sentences
proof (relation "measure length")
  show "wf (measure (length :: jsstring \<Rightarrow> nat))"
    by simp
next
  fix s :: jsstring
  let ?rest = "dropWhile (\<lambda>c. \<not> isDelimiter c) s"
  assume "?rest \<noteq> []"
  then obtain c cs where rest: "?rest = c # cs"
    by (cases ?rest) auto
  then have "isDelimiter c"
    using hd_dropWhile [of "\<lambda>c. \<not> isDelimiter c" s] by auto
  then have "length (dropWhile isDelimiter ?rest) \<le> length cs"
    using rest by (simp add: length_dropWhile_le)
  moreover have "length ?rest \<le> length s"
    by (rule length_dropWhile_le)
  ultimately show "(dropWhile isDelimiter ?rest, s) \<in> measure length"
    using rest by simp
qed

declare split_sentences.simps [simp del]

text \<open>
  The \<^verbatim>\<open>for (const part of sentences)\<close> loop together with the flush that follows it
  (\<^verbatim>\<open>if (parts.length > 0) chunks.push(parts.join('').trim())\<close>):
  \<^verbatim>\<open>
    if (currentLength + partLength <= maxChunkLength) {
      parts.push(part); currentLength += partLength;
    } else {
      if (parts.length > 0) chunks.push(parts.join('').trim());
      parts = [part]; currentLength = partLength;
    }
  \<close>
  \<^verbatim>\<open>maxChunkLength\<close> is a number of the request (\<^verbatim>\<open>chunk_size\<close>); it is modelled
  as an integer.
\<close>

fun accumulate ::
  "int \<Rightarrow> jsstring list \<Rightarrow> jsstring list \<Rightarrow> jsstring list \<Rightarrow> nat \<Rightarrow> jsstring list" where
  "accumulate maxChunkLength [] chunks parts currentLength =
     (if length parts > 0 then chunks @ [trim (concat parts)] else chunks)"
| "accumulate maxChunkLength (part # sentences) chunks parts currentLength =
     (if int currentLength + int (length part) \<le> maxChunkLength
      then accumulate maxChunkLength sentences chunks (parts @ [part]) (currentLength + length part)
      else accumulate maxChunkLength sentences
             (if length parts > 0 then chunks @ [trim (concat parts)] else chunks)
             [part] (length part))"

text \<open>
  \<^verbatim>\<open>String.prototype.substring\<close> clamps both arguments to \<open>[0, length]\<close> and swaps
  them when the first is the larger.
\<close>

definition substring :: "jsstring \<Rightarrow> int \<Rightarrow> int \<Rightarrow> jsstring" where
  "substring s start end =
     (let len = int (length s);
          finalStart = min (max start 0) len;
          finalEnd = min (max end 0) len;
          from = min finalStart finalEnd;
          to = max finalStart finalEnd
      in take (nat (to - from)) (drop (nat from) s))"

text \<open>
  The forced split
  \<^verbatim>\<open>for (let i = 0; i < text.length; i += maxChunkLength) chunks.push(text.substring(i, i + maxChunkLength))\<close>.
  With a step that is not positive the loop does not end, hence the option monad.
\<close>

partial_function (option) forced_split ::
  "jsstring \<Rightarrow> int \<Rightarrow> int \<Rightarrow> jsstring list \<Rightarrow> jsstring list option" where
  "forced_split text maxChunkLength i chunks =
     (if i < int (length text)
      then forced_split text maxChunkLength (i + maxChunkLength)
             (chunks @ [substring text i (i + maxChunkLength)])
      else Some chunks)"

declare forced_split.simps [code]

definition smartChunkText :: "jsstring \<Rightarrow> int \<Rightarrow> jsstring list option" where
  "smartChunkText text maxChunkLength =
     (if text = [] then Some []
      else
        let chunks = accumulate maxChunkLength (split_sentences text) [] [] 0
        in map_option (filter (\<lambda>chunk. length chunk > 0))
             (if length chunks = 0 \<and> length text > 0
              then forced_split text maxChunkLength 0 chunks
              else Some chunks))"

text \<open>
  What it means for a list of units to reconstruct a text: the text is the units, in
  order, separated (and surrounded) by gaps that consist of white space only. Nothing but
  white space is lost, nothing is duplicated, and the order is kept.
\<close>

inductive reconstructs :: "jsstring \<Rightarrow> jsstring list \<Rightarrow> bool" where
  gap_only: "list_all isWhiteSpace gap \<Longrightarrow> reconstructs gap []"
| next_unit: "list_all isWhiteSpace gap \<Longrightarrow> reconstructs rest units \<Longrightarrow>
     reconstructs (gap @ unit @ rest) (unit # units)"

text \<open>ASCII test strings as code units.\<close>

definition str :: "string \<Rightarrow> jsstring" where
  "str s = map (\<lambda>c. of_char c) s"

section \<open>Batch scheduling (lib/tts.js)\<close>

subsection \<open>Effective concurrency\<close>

text \<open>
  Both \<^verbatim>\<open>getVoice\<close> and \<^verbatim>\<open>pipeChunksToStream\<close> start with
  \<^verbatim>\<open>Math.min(concurrency, chunks.length, Math.max(5, Math.ceil(chunks.length / 3)))\<close>.
  The requested concurrency is a number taken from the request body; it is modelled as an
  integer, so zero and negative requests are inputs of the model. The quotient
  \<^verbatim>\<open>chunks.length / 3\<close> is taken over the rationals: for array lengths (below
  \<open>2 ^ 32\<close>) the double nearest to the quotient has the same ceiling.
\<close>

definition optimalConcurrency :: "int \<Rightarrow> nat \<Rightarrow> int" where
  "optimalConcurrency concurrency len =
     min concurrency (min (int len) (max 5 \<lceil>rat_of_nat len / 3\<rceil>))"

subsection \<open>One synthesis call\<close>

text \<open>
  Error messages are kept as terms that mirror the template strings of the source:
  \<open>EdgeTtsApiError status statusText errorText\<close> is the message thrown by
  \<^verbatim>\<open>getAudioChunk\<close> for a reply that is not ok, \<open>NonStreamTtsFailed m\<close>,
  \<open>StreamTtsFailed m\<close> and \<open>StreamProcessingFailed m\<close> are the prefixes that
  \<^verbatim>\<open>getVoice\<close>, \<^verbatim>\<open>streamVoice\<close> and \<^verbatim>\<open>pipeChunksToStream\<close> put before
  \<^verbatim>\<open>error.message\<close>. In \<^verbatim>\<open>getEndpoint\<close>, \<open>EndpointHttpError status statusText errorText\<close>
  is the message for a reply that is not ok, \<open>JwtParseFailed m\<close> the one of the inner
  \<^verbatim>\<open>catch\<close> around the decoding of the token, and \<open>EndpointFetchFailed m\<close> the prefix that the
  outer \<^verbatim>\<open>catch\<close> puts before every error of the refresh. \<open>Thrown\<close> is any other message
  (a network error of \<^verbatim>\<open>fetch\<close>, a failed signature).
\<close>

type_synonym bytes = "8 word list"

datatype message =
    Thrown string
  | EdgeTtsApiError nat string string
  | NonStreamTtsFailed message
  | StreamTtsFailed message
  | StreamProcessingFailed message
  | EndpointHttpError nat string string
  | JwtParseFailed message
  | EndpointFetchFailed message

text \<open>
  What the outside world answers to one invocation of \<^verbatim>\<open>getAudioChunk\<close>: the outcome
  of \<^verbatim>\<open>await getEndpoint()\<close>, the outcome of \<^verbatim>\<open>await fetch(url, ...)\<close>, and the
  instant at which the returned promise settles. The instants order the completions of
  the calls of one batch.
\<close>

record http_response =
  ok :: bool
  status :: nat
  statusText :: string
  errorText :: string
  blob :: bytes

record audio_call =
  endpoint_reply :: "message + unit"
  fetch_reply :: "message + http_response"
  settles_at :: nat

definition getAudioChunk :: "audio_call \<Rightarrow> message + bytes" where
  "getAudioChunk env =
     (case endpoint_reply env of
        Inl error \<Rightarrow> Inl error
      | Inr endpoint \<Rightarrow>
         (case fetch_reply env of
            Inl error \<Rightarrow> Inl error
          | Inr response \<Rightarrow>
             if \<not> ok response
             then Inl (EdgeTtsApiError (status response) (statusText response) (errorText response))
             else Inr (blob response)))"

subsection \<open>Promise.all\<close>

text \<open>
  \<^verbatim>\<open>Promise.all\<close> over promises that are each given with their settling instant and
  outcome: it rejects with the reason of the promise that rejects first in time (the earlier
  position wins among equal instants), and otherwise fulfils with the values in the order
  of the input array.
\<close>

fun first_rejection :: "(nat \<times> (message + 'a)) list \<Rightarrow> (nat \<times> message) option" where
  "first_rejection [] = None"
| "first_rejection ((t, Inr v) # ps) = first_rejection ps"
| "first_rejection ((t, Inl e) # ps) =
     (case first_rejection ps of
        None \<Rightarrow> Some (t, e)
      | Some (t', e') \<Rightarrow> if t' < t then Some (t', e') else Some (t, e))"

fun fulfilled_values :: "(nat \<times> (message + 'a)) list \<Rightarrow> 'a list" where
  "fulfilled_values [] = []"
| "fulfilled_values ((t, Inr v) # ps) = v # fulfilled_values ps"
| "fulfilled_values ((t, Inl e) # ps) = fulfilled_values ps"

definition promise_all :: "(nat \<times> (message + 'a)) list \<Rightarrow> message + 'a list" where
  "promise_all promises =
     (case first_rejection promises of
        Some (t, error) \<Rightarrow> Inl error
      | None \<Rightarrow> Inr (fulfilled_values promises))"

subsection \<open>The two batch loops\<close>

text \<open>
  \<^verbatim>\<open>Array.prototype.slice(start, end)\<close>: a negative index counts from the end, and
  both indices are clamped to the array.
\<close>

definition slice :: "'a list \<Rightarrow> int \<Rightarrow> int \<Rightarrow> 'a list" where
  "slice xs start end =
     (let len = int (length xs);
          k = (if start < 0 then max (len + start) 0 else min start len);
          final = (if end < 0 then max (len + end) 0 else min end len)
      in take (nat (final - k)) (drop (nat k) xs))"

text \<open>
  \<^verbatim>\<open>batch.map(chunk => getAudioChunk(chunk, ...))\<close>: every call of the batch is
  started before any is awaited. The backend is asked by invocation number (\<open>calls\<close>
  invocations were made before this batch) and chunk.
\<close>

definition issue_batch ::
  "(nat \<Rightarrow> 'c \<Rightarrow> audio_call) \<Rightarrow> nat \<Rightarrow> 'c list \<Rightarrow> (nat \<times> (message + bytes)) list" where
  "issue_batch backend calls batch =
     map (\<lambda>(k, chunk). (settles_at (backend k chunk), getAudioChunk (backend k chunk)))
       (zip [calls ..< calls + length batch] batch)"

text \<open>
  The loop of \<^verbatim>\<open>getVoice\<close>:
  \<^verbatim>\<open>
    for (let i = 0; i < textChunks.length; i += optimalConcurrency) {
      const batch = textChunks.slice(i, i + optimalConcurrency);
      const audioPromises = batch.map(chunk => getAudioChunk(chunk, ...));
      const audioBlobs = await Promise.all(audioPromises);
      allAudioBlobs.push(...audioBlobs);
    }
  \<close>
  The last argument records the batches issued so far; it is the only addition to the
  state of the source. A rejected \<^verbatim>\<open>Promise.all\<close> leaves the loop through the
  \<^verbatim>\<open>catch\<close> of \<^verbatim>\<open>getVoice\<close>.
\<close>

partial_function (option) getVoice_loop ::
  "(nat \<Rightarrow> 'c \<Rightarrow> audio_call) \<Rightarrow> 'c list \<Rightarrow> int \<Rightarrow> int \<Rightarrow> bytes list \<Rightarrow> 'c list list \<Rightarrow>
   ((message + bytes list) \<times> 'c list list) option" where
  "getVoice_loop backend textChunks optimal i allAudioBlobs issued =
     (if i < int (length textChunks) then
        (let batch = slice textChunks i (i + optimal);
             audioPromises = issue_batch backend (length (concat issued)) batch
         in case promise_all audioPromises of
              Inl error \<Rightarrow> Some (Inl error, issued @ [batch])
            | Inr audioBlobs \<Rightarrow>
                getVoice_loop backend textChunks optimal (i + optimal)
                  (allAudioBlobs @ audioBlobs) (issued @ [batch]))
      else Some (Inr allAudioBlobs, issued))"

declare getVoice_loop.simps [code]

text \<open>
  The writer of the stream is modelled by the list of the calls made on it. The loop of
  \<^verbatim>\<open>pipeChunksToStream\<close> is the loop above with
  \<^verbatim>\<open>for (const buffer of buffers) writer.write(new Uint8Array(buffer))\<close> in place of the
  \<^verbatim>\<open>push\<close>; \<^verbatim>\<open>blob.arrayBuffer()\<close> returns the bytes of the blob.
\<close>

datatype writer_op = Write bytes | Abort message | Close

partial_function (option) pipe_loop ::
  "(nat \<Rightarrow> 'c \<Rightarrow> audio_call) \<Rightarrow> 'c list \<Rightarrow> int \<Rightarrow> int \<Rightarrow> writer_op list \<Rightarrow> 'c list list \<Rightarrow>
   ((message + unit) \<times> writer_op list \<times> 'c list list) option" where
  "pipe_loop backend chunks optimal i writer issued =
     (if i < int (length chunks) then
        (let batch = slice chunks i (i + optimal);
             audioPromises = issue_batch backend (length (concat issued)) batch
         in case promise_all audioPromises of
              Inl error \<Rightarrow> Some (Inl error, writer, issued @ [batch])
            | Inr audioBlobs \<Rightarrow>
                pipe_loop backend chunks optimal (i + optimal)
                  (writer @ map Write audioBlobs) (issued @ [batch]))
      else Some (Inr (), writer, issued))"

declare pipe_loop.simps [code]

text \<open>
  \<^verbatim>\<open>
    try { ...loop... }
    catch (error) { writer.abort(error); throw new Error(... error.message); }
    finally { writer.close(); }
  \<close>
  The \<^verbatim>\<open>finally\<close> block runs after the \<^verbatim>\<open>catch\<close> block as well.
\<close>

definition pipeChunksToStream ::
  "(nat \<Rightarrow> 'c \<Rightarrow> audio_call) \<Rightarrow> 'c list \<Rightarrow> int \<Rightarrow>
   ((message + unit) \<times> writer_op list \<times> 'c list list) option" where
  "pipeChunksToStream backend chunks concurrency =
     map_option
       (\<lambda>(outcome, writer, issued).
          case outcome of
            Inl error \<Rightarrow> (Inl (StreamProcessingFailed error), writer @ [Abort error] @ [Close], issued)
          | Inr done \<Rightarrow> (Inr (), writer @ [Close], issued))
       (pipe_loop backend chunks (optimalConcurrency concurrency (length chunks)) 0 [] [])"

text \<open>
  A \<^verbatim>\<open>Response\<close>: its status (200 unless given), its content type and its body.
  \<^verbatim>\<open>errorResponse(message, status, code)\<close> is a JSON body with the message, the type
  \<^verbatim>\<open>api_error\<close> and the code.
\<close>

datatype payload = AudioBody bytes | StreamBody "writer_op list" | ErrorBody message string string

record js_response =
  res_status :: nat
  res_content_type :: string
  res_body :: payload

definition errorResponse :: "message \<Rightarrow> nat \<Rightarrow> string \<Rightarrow> js_response" where
  "errorResponse msg st code =
     \<lparr>res_status = st, res_content_type = ''application/json'',
      res_body = ErrorBody msg ''api_error'' code\<rparr>"

definition getVoice ::
  "(nat \<Rightarrow> 'c \<Rightarrow> audio_call) \<Rightarrow> 'c list \<Rightarrow> int \<Rightarrow> (js_response \<times> 'c list list) option" where
  "getVoice backend textChunks concurrency =
     map_option
       (\<lambda>(outcome, issued).
          case outcome of
            Inr allAudioBlobs \<Rightarrow>
              (\<lparr>res_status = 200, res_content_type = ''audio/mpeg'',
                res_body = AudioBody (concat allAudioBlobs)\<rparr>, issued)
          | Inl error \<Rightarrow>
              (errorResponse (NonStreamTtsFailed error) 500 ''tts_generation_error'', issued))
       (getVoice_loop backend textChunks (optimalConcurrency concurrency (length textChunks)) 0 [] [])"

definition streamVoice ::
  "(nat \<Rightarrow> 'c \<Rightarrow> audio_call) \<Rightarrow> 'c list \<Rightarrow> int \<Rightarrow> (js_response \<times> writer_op list \<times> 'c list list) option" where
  "streamVoice backend textChunks concurrency =
     map_option
       (\<lambda>(outcome, writer, issued).
          case outcome of
            Inr done \<Rightarrow>
              (\<lparr>res_status = 200, res_content_type = ''audio/mpeg'', res_body = StreamBody writer\<rparr>,
               writer, issued)
          | Inl error \<Rightarrow>
              (errorResponse (StreamTtsFailed error) 500 ''tts_generation_error'', writer, issued))
       (pipeChunksToStream backend textChunks concurrency)"

text \<open>
  The consecutive batches of a given size: the partition that the scheduler is specified
  to issue.
\<close>

function batches_of :: "nat \<Rightarrow> 'a list \<Rightarrow> 'a list list" where
  "batches_of n xs =
     (if n = 0 \<or> xs = [] then [] else take n xs # batches_of n (drop n xs))"
  by pat_completeness auto
termination
  by (relation "measure (\<lambda>(n, xs). length xs)") auto

declare batches_of.simps [simp del]

subsection \<open>Example backends\<close>

definition reply_ok :: "nat \<Rightarrow> bytes \<Rightarrow> audio_call" where
  "reply_ok t audio =
     \<lparr>endpoint_reply = Inr (),
      fetch_reply = Inr \<lparr>ok = True, status = 200, statusText = ''OK'', errorText = [], blob = audio\<rparr>,
      settles_at = t\<rparr>"

definition reply_http_error :: "nat \<Rightarrow> nat \<Rightarrow> audio_call" where
  "reply_http_error t st =
     \<lparr>endpoint_reply = Inr (),
      fetch_reply = Inr \<lparr>ok = False, status = st, statusText = ''Error'', errorText = ''unavailable'', blob = []\<rparr>,
      settles_at = t\<rparr>"

definition seven_units_backend :: "nat \<Rightarrow> nat \<Rightarrow> audio_call" where
  "seven_units_backend k chunk = reply_ok ((k * 3) mod 7) [of_nat chunk]"


section \<open>Credential cache (lib/auth.js)\<close>

text \<open>
  The module state is \<^verbatim>\<open>tokenInfo\<close>, \<^verbatim>\<open>tokenRefreshing\<close> and
  \<^verbatim>\<open>tokenRefreshPromise\<close>. JavaScript runs each piece of code between two
  \<^verbatim>\<open>await\<close>s to completion before anything else runs, so an execution is a sequence of
  such pieces, and the model has one state transformer for each piece that reads or writes
  the module state:
  \<^item> \<open>getEndpoint\<close>: a call of \<^verbatim>\<open>getEndpoint\<close> up to its \<^verbatim>\<open>return\<close>. When it
    starts a refresh, the body of the refresh runs up to \<^verbatim>\<open>await sign(endpointUrl)\<close>
    (\<^verbatim>\<open>sign\<close> is an \<^verbatim>\<open>async\<close> function, so this \<^verbatim>\<open>await\<close> is always reached),
    and the promise of the refresh is stored in \<^verbatim>\<open>tokenRefreshPromise\<close>;
  \<^item> \<open>sign_settled\<close>: the refresh resumes with the outcome of \<^verbatim>\<open>sign\<close>; a failure goes
    through \<^verbatim>\<open>catch\<close> and \<^verbatim>\<open>finally\<close>, a signature is followed by the
    \<^verbatim>\<open>fetch\<close> of the token endpoint;
  \<^item> \<open>fetch_settled\<close>: the refresh resumes with the reply (the pieces after
    \<^verbatim>\<open>await fetch\<close> and after \<^verbatim>\<open>await response.json()\<close> or
    \<^verbatim>\<open>await response.text()\<close> are taken together: the first of them touches no module
    state), installs the token or throws, and runs \<^verbatim>\<open>finally\<close>;
  \<^item> \<open>clearTokenCache\<close>.
  A promise of a refresh is named by the position of the refresh in the list
  \<open>refreshes\<close>, which is the model's record of every refresh ever started: its phase, the
  clock reading of the call that started it, and the number of requests it has sent to the
  token endpoint. Times are seconds as rationals (\<^verbatim>\<open>Date.now() / 1000\<close>).
\<close>

record endpoint_data =
  endpoint_r :: string
  endpoint_t :: string

record TokenInfo =
  endpoint :: "endpoint_data option"
  token :: "string option"
  expiredAt :: "rat option"

datatype refresh_phase = Signing | Fetching | Settled "message + endpoint_data"

record refresh_task =
  phase :: refresh_phase
  started_at :: rat
  posts :: nat

record auth_state =
  tokenInfo :: TokenInfo
  tokenRefreshing :: bool
  tokenRefreshPromise :: "nat option"
  refreshes :: "refresh_task list"

definition auth_init :: auth_state where
  "auth_init =
     \<lparr>tokenInfo = \<lparr>endpoint = None, token = None, expiredAt = None\<rparr>,
      tokenRefreshing = False, tokenRefreshPromise = None, refreshes = []\<rparr>"

text \<open>
  \<^verbatim>\<open>tokenInfo.token && tokenInfo.expiredAt && now < tokenInfo.expiredAt - TOKEN_REFRESH_BEFORE_EXPIRY\<close>:
  the empty string, \<^verbatim>\<open>null\<close> and the number 0 are falsy.
\<close>

definition TOKEN_REFRESH_BEFORE_EXPIRY :: rat where
  "TOKEN_REFRESH_BEFORE_EXPIRY = 5 * 60"

definition token_valid :: "TokenInfo \<Rightarrow> rat \<Rightarrow> bool" where
  "token_valid info now \<longleftrightarrow>
     (case token info of None \<Rightarrow> False | Some tok \<Rightarrow> tok \<noteq> []) \<and>
     (case expiredAt info of None \<Rightarrow> False
      | Some e \<Rightarrow> e \<noteq> 0 \<and> now < e - TOKEN_REFRESH_BEFORE_EXPIRY)"

text \<open>
  What a call returns: a promise already resolved with the cached endpoint, or the promise
  of a refresh.
\<close>

datatype endpoint_promise = Resolved "endpoint_data option" | Awaiting nat

definition getEndpoint :: "rat \<Rightarrow> auth_state \<Rightarrow> endpoint_promise \<times> auth_state" where
  "getEndpoint now s =
     (if token_valid (tokenInfo s) now then (Resolved (endpoint (tokenInfo s)), s)
      else
        (case (tokenRefreshing s, tokenRefreshPromise s) of
           (True, Some p) \<Rightarrow> (Awaiting p, s)
         | _ \<Rightarrow>
            (let p = length (refreshes s)
             in (Awaiting p,
                 s\<lparr>tokenRefreshing := True,
                   refreshes := refreshes s @ [\<lparr>phase = Signing, started_at = now, posts = 0\<rparr>],
                   tokenRefreshPromise := Some p\<rparr>))))"

text \<open>
  The end of a refresh: its promise settles and the \<^verbatim>\<open>finally\<close> block runs
  \<^verbatim>\<open>tokenRefreshing = false; tokenRefreshPromise = null\<close>.
\<close>

definition settle :: "nat \<Rightarrow> message + endpoint_data \<Rightarrow> auth_state \<Rightarrow> auth_state" where
  "settle p outcome s =
     s\<lparr>refreshes := (refreshes s)[p := (refreshes s ! p)\<lparr>phase := Settled outcome\<rparr>],
       tokenRefreshing := False, tokenRefreshPromise := None\<rparr>"

definition sign_settled :: "nat \<Rightarrow> message + unit \<Rightarrow> auth_state \<Rightarrow> auth_state" where
  "sign_settled p signature s =
     (if p < length (refreshes s) \<and> phase (refreshes s ! p) = Signing then
        (case signature of
           Inl error \<Rightarrow> settle p (Inl (EndpointFetchFailed error)) s
         | Inr sig \<Rightarrow>
            s\<lparr>refreshes := (refreshes s)[p := (refreshes s ! p)\<lparr>phase := Fetching,
                   posts := posts (refreshes s ! p) + 1\<rparr>]\<rparr>)
      else s)"

text \<open>
  The reply of the token endpoint, as far as the refresh looks at it: \<^verbatim>\<open>fetch\<close> throws;
  the response is not ok; its body is not JSON; or it is the JSON \<^verbatim>\<open>data\<close>, given with
  the outcome of decoding the payload of \<^verbatim>\<open>data.t\<close>: decoding throws (inside the inner
  \<^verbatim>\<open>try\<close>), or the payload is \<^verbatim>\<open>null\<close> (reading \<^verbatim>\<open>decodedJwt.exp\<close> then throws
  outside the inner \<^verbatim>\<open>try\<close>), or it is an object whose \<^verbatim>\<open>exp\<close> is a number or absent.
\<close>

datatype jwt_payload = Undecodable message | NullPayload message | Claims "rat option"

datatype token_reply =
    NetworkError message
  | HttpError nat string string
  | BadJson message
  | TokenData endpoint_data jwt_payload

fun refresh_result :: "token_reply \<Rightarrow> message + (endpoint_data \<times> rat option)" where
  "refresh_result (NetworkError error) = Inl error"
| "refresh_result (HttpError st stText body) = Inl (EndpointHttpError st stText body)"
| "refresh_result (BadJson error) = Inl error"
| "refresh_result (TokenData d (Undecodable error)) = Inl (JwtParseFailed error)"
| "refresh_result (TokenData d (NullPayload error)) = Inl error"
| "refresh_result (TokenData d (Claims expiry)) = Inr (d, expiry)"

definition fetch_settled :: "nat \<Rightarrow> token_reply \<Rightarrow> auth_state \<Rightarrow> auth_state" where
  "fetch_settled p reply s =
     (if p < length (refreshes s) \<and> phase (refreshes s ! p) = Fetching then
        (case refresh_result reply of
           Inl error \<Rightarrow> settle p (Inl (EndpointFetchFailed error)) s
         | Inr (d, expiry) \<Rightarrow>
            settle p (Inr d)
              (s\<lparr>tokenInfo := \<lparr>endpoint = Some d, token = Some (endpoint_t d), expiredAt = expiry\<rparr>\<rparr>))
      else s)"

definition clearTokenCache :: "auth_state \<Rightarrow> auth_state" where
  "clearTokenCache s =
     s\<lparr>tokenInfo := \<lparr>endpoint = None, token = None, expiredAt = None\<rparr>,
       tokenRefreshing := False, tokenRefreshPromise := None\<rparr>"

text \<open>
  An execution is a list of events. \<open>run\<close> also collects what each call returned, in the
  order of the calls.
\<close>

datatype event =
    Call rat
  | SignSettled nat "message + unit"
  | FetchSettled nat token_reply
  | ClearTokenCache

fun step :: "event \<Rightarrow> endpoint_promise list \<times> auth_state \<Rightarrow> endpoint_promise list \<times> auth_state" where
  "step (Call now) (returned, s) = (returned @ [fst (getEndpoint now s)], snd (getEndpoint now s))"
| "step (SignSettled p signature) (returned, s) = (returned, sign_settled p signature s)"
| "step (FetchSettled p reply) (returned, s) = (returned, fetch_settled p reply s)"
| "step ClearTokenCache (returned, s) = (returned, clearTokenCache s)"

definition run :: "event list \<Rightarrow> auth_state \<Rightarrow> endpoint_promise list \<times> auth_state" where
  "run events s = foldl (\<lambda>st ev. step ev st) ([], s) events"

text \<open>
  What the holder of a returned promise has received in a state: nothing yet, an error, or
  an endpoint.
\<close>

definition observed :: "auth_state \<Rightarrow> endpoint_promise \<Rightarrow> (message + endpoint_data option) option" where
  "observed s promise =
     (case promise of
        Resolved e \<Rightarrow> Some (Inr e)
      | Awaiting p \<Rightarrow>
         (if p < length (refreshes s) then
            (case phase (refreshes s ! p) of
               Settled (Inl error) \<Rightarrow> Some (Inl error)
             | Settled (Inr d) \<Rightarrow> Some (Inr (Some d))
             | _ \<Rightarrow> None)
          else None))"

text \<open>
  The refreshes that have started and not settled, the number of requests sent to the
  token endpoint, and executions in which \<^verbatim>\<open>clearTokenCache\<close> is not called.
\<close>

definition in_flight :: "auth_state \<Rightarrow> nat list" where
  "in_flight s =
     filter (\<lambda>p. case phase (refreshes s ! p) of Settled outcome \<Rightarrow> False | _ \<Rightarrow> True)
       [0 ..< length (refreshes s)]"








subsection \<open>Example reply\<close>

definition example_endpoint :: endpoint_data where
  "example_endpoint = \<lparr>endpoint_r = ''eastus'', endpoint_t = ''h.p.s''\<rparr>"

section \<open>Properties of the chunker\<close>

lemma concat_split_sentences: "concat (split_sentences s) = s"
proof (induction s rule: split_sentences.induct)
  case (1 s)
  show ?case
  proof (cases "dropWhile (\<lambda>c. \<not> isDelimiter c) s = []")
    case True
    then have "takeWhile (\<lambda>c. \<not> isDelimiter c) s = s"
      by (metis append_Nil2 takeWhile_dropWhile_id)
    with True show ?thesis
      by (subst split_sentences.simps) simp
  next
    case False
    with "1.IH" have "concat (split_sentences s) =
        takeWhile (\<lambda>c. \<not> isDelimiter c) s @
        (takeWhile isDelimiter (dropWhile (\<lambda>c. \<not> isDelimiter c) s) @
         dropWhile isDelimiter (dropWhile (\<lambda>c. \<not> isDelimiter c) s))"
      by (subst split_sentences.simps) simp
    then show ?thesis
      by (simp only: takeWhile_dropWhile_id)
  qed
qed

lemma split_sentences_not_Nil: "split_sentences s \<noteq> []"
  by (subst split_sentences.simps) simp

lemma accumulate_raw:
  "\<exists>raws. accumulate m sentences chunks parts n = chunks @ map trim raws \<and>
          concat raws = concat parts @ concat sentences \<and>
          (sentences \<noteq> [] \<or> parts \<noteq> [] \<longrightarrow> raws \<noteq> [])"
proof (induction sentences arbitrary: chunks parts n)
  case Nil
  show ?case
  proof (cases "parts = []")
    case True
    then show ?thesis by (intro exI [of _ "[]"]) simp
  next
    case False
    then show ?thesis by (intro exI [of _ "[concat parts]"]) simp
  qed
next
  case (Cons part sentences)
  show ?case
  proof (cases "int n + int (length part) \<le> m")
    case True
    from Cons.IH [of chunks "parts @ [part]" "n + length part"]
    obtain raws where "accumulate m sentences chunks (parts @ [part]) (n + length part) =
        chunks @ map trim raws" "concat raws = concat (parts @ [part]) @ concat sentences"
        "raws \<noteq> []"
      by auto
    with True show ?thesis
      by (intro exI [of _ raws]) simp
  next
    case False
    let ?chunks = "if length parts > 0 then chunks @ [trim (concat parts)] else chunks"
    from Cons.IH [of ?chunks "[part]" "length part"]
    obtain raws where raws: "accumulate m sentences ?chunks [part] (length part) =
        ?chunks @ map trim raws" "concat raws = concat [part] @ concat sentences"
        "raws \<noteq> []"
      by auto
    show ?thesis
    proof (cases "parts = []")
      case True
      with False raws show ?thesis
        by (intro exI [of _ raws]) simp
    next
      case nonempty: False
      with False raws show ?thesis
        by (intro exI [of _ "concat parts # raws"]) simp
    qed
  qed
qed

lemma trim_decompose:
  "\<exists>lead trail. s = lead @ trim s @ trail \<and> list_all isWhiteSpace lead \<and> list_all isWhiteSpace trail"
proof -
  let ?d = "dropWhile isWhiteSpace s"
  have "rev (dropWhile isWhiteSpace (rev ?d)) @ rev (takeWhile isWhiteSpace (rev ?d)) = ?d"
    by (simp only: rev_append [symmetric] takeWhile_dropWhile_id rev_rev_ident)
  then have d: "?d = trim s @ rev (takeWhile isWhiteSpace (rev ?d))"
    by (simp add: trim_def)
  have "s = takeWhile isWhiteSpace s @ ?d"
    by simp
  with d have "s = takeWhile isWhiteSpace s @ trim s @ rev (takeWhile isWhiteSpace (rev ?d))"
    by simp
  moreover have "list_all isWhiteSpace (takeWhile isWhiteSpace s)"
    by (simp add: list_all_iff) (meson set_takeWhileD)
  moreover have "list_all isWhiteSpace (rev (takeWhile isWhiteSpace (rev ?d)))"
    by (simp add: list_all_iff) (meson set_takeWhileD)
  ultimately show ?thesis
    by blast
qed

lemma reconstructs_prepend:
  assumes "list_all isWhiteSpace g" and "reconstructs s units"
  shows "reconstructs (g @ s) units"
  using assms(2)
proof cases
  case (gap_only)
  with assms(1) show ?thesis
    by (simp add: reconstructs.gap_only)
next
  case (next_unit gap rest us u)
  from assms(1) next_unit(3) have "list_all isWhiteSpace (g @ gap)"
    by simp
  then have "reconstructs ((g @ gap) @ u @ rest) (u # us)"
    using next_unit(4) by (rule reconstructs.next_unit)
  with next_unit show ?thesis
    by simp
qed

lemma reconstructs_trims:
  "reconstructs (concat raws) (filter (\<lambda>chunk. length chunk > 0) (map trim raws))"
proof (induction raws)
  case Nil
  show ?case by (simp add: reconstructs.gap_only)
next
  case (Cons raw raws)
  obtain lead trail where raw: "raw = lead @ trim raw @ trail"
    and ws: "list_all isWhiteSpace lead" "list_all isWhiteSpace trail"
    using trim_decompose by blast
  let ?units = "filter (\<lambda>chunk. length chunk > 0) (map trim raws)"
  from ws(2) Cons.IH have tail: "reconstructs (trail @ concat raws) ?units"
    by (rule reconstructs_prepend)
  show ?case
  proof (cases "trim raw = []")
    case True
    with raw ws have "list_all isWhiteSpace raw"
      by (metis append_Nil list_all_append)
    then have "reconstructs (raw @ concat raws) ?units"
      using Cons.IH by (rule reconstructs_prepend)
    with True show ?thesis by simp
  next
    case False
    from ws(1) tail have "reconstructs (lead @ trim raw @ (trail @ concat raws)) (trim raw # ?units)"
      by (rule reconstructs.next_unit)
    then have "reconstructs (raw @ concat raws) (trim raw # ?units)"
      using raw by (metis append.assoc)
    with False show ?thesis by simp
  qed
qed

lemma reconstructs_content:
  "reconstructs s units \<Longrightarrow>
   filter (\<lambda>c. \<not> isWhiteSpace c) (concat units) = filter (\<lambda>c. \<not> isWhiteSpace c) s"
proof (induction rule: reconstructs.induct)
  case (gap_only gap)
  then show ?case
    by (simp add: list_all_iff filter_empty_conv)
next
  case (next_unit gap rest units unit)
  from next_unit(1) have "filter (\<lambda>c. \<not> isWhiteSpace c) gap = []"
    by (simp add: list_all_iff filter_empty_conv)
  with next_unit show ?case
    by simp
qed

lemma first_pass_not_Nil: "accumulate m (split_sentences s) [] [] 0 \<noteq> []"
  using accumulate_raw [of m "split_sentences s" "[]" "[]" 0] split_sentences_not_Nil [of s]
  by auto

lemma smartChunkText_first_pass:
  "smartChunkText s m =
     Some (if s = [] then [] else filter (\<lambda>chunk. length chunk > 0) (accumulate m (split_sentences s) [] [] 0))"
  by (simp add: smartChunkText_def first_pass_not_Nil)

text \<open>
  C8: for every text (and every \<^verbatim>\<open>maxChunkLength\<close>) \<^verbatim>\<open>smartChunkText\<close> returns,
  and the units it returns reconstruct the text: the text is the units in order, separated
  by gaps of white space only (the white space that the per-unit \<^verbatim>\<open>trim\<close> and the
  dropping of empty units removed). So no code unit other than trimmed white space is lost
  or duplicated: the units and the text hold the same code units that are not white space,
  the separators among them, in the same order. For the empty text the result is the empty
  sequence.
\<close>

theorem smartChunkText_reconstructs:
  "smartChunkText [] m = Some [] \<and>
   (\<exists>units. smartChunkText s m = Some units \<and> reconstructs s units \<and>
      filter (\<lambda>c. \<not> isWhiteSpace c) (concat units) = filter (\<lambda>c. \<not> isWhiteSpace c) s)"
proof -
  have empty: "smartChunkText [] m = Some []"
    by (simp add: smartChunkText_def)
  have "\<exists>units. smartChunkText s m = Some units \<and> reconstructs s units"
  proof (cases "s = []")
    case True
    with empty show ?thesis
      by (simp add: reconstructs.gap_only)
  next
    case False
    obtain raws where raws: "accumulate m (split_sentences s) [] [] 0 = [] @ map trim raws"
      "concat raws = concat [] @ concat (split_sentences s)"
      using accumulate_raw [of m "split_sentences s" "[]" "[]" 0] by blast
    then have "concat raws = s"
      by (simp add: concat_split_sentences)
    with reconstructs_trims [of raws]
    have "reconstructs s (filter (\<lambda>chunk. length chunk > 0) (map trim raws))"
      by simp
    with False raws(1) show ?thesis
      by (simp add: smartChunkText_first_pass)
  qed
  with empty show ?thesis
    using reconstructs_content by blast
qed

theorem smartChunkText_reconstructs_witness:
  "smartChunkText [] 3 = Some [] \<and>
   smartChunkText (str ''Hi. Yo!'') 3 = Some [str ''Hi.'', str ''Yo'', str ''!''] \<and>
   reconstructs (str ''Hi. Yo!'') [str ''Hi.'', str ''Yo'', str ''!''] \<and>
   filter (\<lambda>c. \<not> isWhiteSpace c) (concat [str ''Hi.'', str ''Yo'', str ''!'']) =
     filter (\<lambda>c. \<not> isWhiteSpace c) (str ''Hi. Yo!'')"
proof -
  have run: "smartChunkText (str ''Hi. Yo!'') 3 = Some [str ''Hi.'', str ''Yo'', str ''!'']"
    by code_simp
  from smartChunkText_reconstructs [of 3 "str ''Hi. Yo!''"] show ?thesis
    unfolding run by simp
qed

text \<open>
  The scenario of the specification: \<^verbatim>\<open>"Hello. World!"\<close> with a maximal length of 300
  is one unit.
\<close>

lemma smartChunkText_hello_world:
  "smartChunkText (str ''Hello. World!'') 300 = Some [str ''Hello. World!'']"
  by code_simp

text \<open>
  When every piece of the split fits into the maximal length, every unit does: a unit
  longer than the maximum can only come from a single piece that is itself longer.
\<close>

lemma length_trim: "length (trim s) \<le> length s"
proof -
  have "length (dropWhile isWhiteSpace (rev (dropWhile isWhiteSpace s))) \<le>
      length (rev (dropWhile isWhiteSpace s))"
    by (rule length_dropWhile_le)
  then have "length (trim s) \<le> length (rev (dropWhile isWhiteSpace s))"
    by (simp add: trim_def)
  also have "\<dots> \<le> length s"
    by (simp add: length_dropWhile_le)
  finally show ?thesis .
qed

lemma accumulate_bounded:
  assumes "\<forall>part \<in> set sentences. int (length part) \<le> m"
    and "n = length (concat parts)" and "parts \<noteq> [] \<longrightarrow> int n \<le> m"
    and "\<forall>chunk \<in> set chunks. int (length chunk) \<le> m"
  shows "\<forall>chunk \<in> set (accumulate m sentences chunks parts n). int (length chunk) \<le> m"
  using assms
proof (induction sentences arbitrary: chunks parts n)
  case Nil
  have "int (length (trim (concat parts))) \<le> m" if "parts \<noteq> []"
  proof -
    have "length (trim (concat parts)) \<le> n"
      unfolding Nil.prems(2) by (rule length_trim)
    with that Nil.prems(3) show ?thesis
      by simp
  qed
  with Nil.prems(4) show ?case
    by auto
next
  case (Cons part sentences)
  from Cons.prems(1) have rest: "\<forall>part \<in> set sentences. int (length part) \<le> m"
    and fits: "int (length part) \<le> m"
    by simp_all
  show ?case
  proof (cases "int n + int (length part) \<le> m")
    case True
    have "\<forall>chunk \<in> set (accumulate m sentences chunks (parts @ [part]) (n + length part)).
        int (length chunk) \<le> m"
      using rest True Cons.prems(2,4) by (intro Cons.IH) simp_all
    with True show ?thesis
      by simp
  next
    case False
    let ?chunks = "if length parts > 0 then chunks @ [trim (concat parts)] else chunks"
    have "int (length (trim (concat parts))) \<le> m" if "parts \<noteq> []"
    proof -
      have "length (trim (concat parts)) \<le> n"
        unfolding Cons.prems(2) by (rule length_trim)
      with that Cons.prems(3) show ?thesis
        by simp
    qed
    with Cons.prems(4) have "\<forall>chunk \<in> set ?chunks. int (length chunk) \<le> m"
      by auto
    with rest fits have "\<forall>chunk \<in> set (accumulate m sentences ?chunks [part] (length part)).
        int (length chunk) \<le> m"
      by (intro Cons.IH) simp_all
    with False show ?thesis
      by simp
  qed
qed

lemma smartChunkText_bounded_if_pieces_fit:
  assumes "\<forall>part \<in> set (split_sentences s). int (length part) \<le> m"
  shows "\<exists>units. smartChunkText s m = Some units \<and> (\<forall>unit \<in> set units. int (length unit) \<le> m)"
proof -
  have "\<forall>chunk \<in> set (accumulate m (split_sentences s) [] [] 0). int (length chunk) \<le> m"
    using assms by (intro accumulate_bounded) simp_all
  then show ?thesis
    by (simp add: smartChunkText_first_pass)
qed

text \<open>
  C4 (the code at the failing input): a text of ten code units without a separator and
  a maximal length of five. The boundary-aware pass puts the single piece into a unit of
  its own, so it yields one unit of length ten; the pass never yields an empty list for a
  text that is not empty (\<open>first_pass_not_Nil\<close>), so the forced split is never taken.
\<close>

theorem smartChunkText_overlong_unit:
  "smartChunkText (str ''aaaaaaaaaa'') 5 = Some [str ''aaaaaaaaaa''] \<and>
   accumulate 5 (split_sentences (str ''aaaaaaaaaa'')) [] [] 0 = [str ''aaaaaaaaaa''] \<and>
   length (str ''aaaaaaaaaa'') = 10"
  by code_simp

section \<open>Properties of the scheduler\<close>

lemma ceiling_third: "\<lceil>rat_of_nat n / 3\<rceil> = (int n + 2) div 3"
proof -
  have "\<lceil>rat_of_int (int n) / rat_of_int 3\<rceil> = - ((- int n) div 3)"
    by (simp only: ceiling_def minus_divide_left of_int_minus [symmetric] floor_divide_of_int_eq)
  then have "\<lceil>rat_of_nat n / 3\<rceil> = - ((- int n) div 3)"
    by simp
  then show ?thesis
    by presburger
qed

lemma optimalConcurrency_pos:
  "1 \<le> c \<Longrightarrow> 1 \<le> n \<Longrightarrow> 0 < optimalConcurrency c n"
  by (simp add: optimalConcurrency_def ceiling_third)

lemma optimalConcurrency_empty: "optimalConcurrency c 0 \<le> 0"
  by (simp add: optimalConcurrency_def)

text \<open>
  C3 (as stated in the specification, refuted): for every requested concurrency of at least 1
  and every unit count \<open>n\<close> of at least 1 the effective concurrency is at least
  \<open>min 5 n\<close> whenever \<open>n\<close> is at least 5. With a requested concurrency of 1 and
  5 units the scheduler computes 1, which is below \<open>min 5 5 = 5\<close>.
\<close>

theorem optimalConcurrency_floor_counterexample:
  "(1::int) \<le> 1 \<and> (1::nat) \<le> 5 \<and> (5::nat) \<le> 5 \<and>
   optimalConcurrency 1 5 = 1 \<and> \<not> min 5 (int 5) \<le> optimalConcurrency 1 5"
  by (simp add: optimalConcurrency_def ceiling_third)

text \<open>
  C3 (amended): for every requested concurrency \<open>c\<close> of at least 1 and every unit count
  \<open>n\<close> of at least 1, the effective concurrency equals
  \<open>min c (min n (max 5 k))\<close> where \<open>k\<close> is the ceiling of \<open>n / 3\<close> (the least integer
  with \<open>n \<le> 3 * k\<close>), lies in \<open>[1, n]\<close>, and is at least \<open>min c (min 5 n)\<close>; so it
  is at least \<open>min 5 n\<close> whenever \<open>n\<close> is at least 5 and the requested concurrency is at
  least 5 as well.
\<close>

theorem optimalConcurrency_bounds:
  assumes "1 \<le> c" and "1 \<le> n"
  shows "\<exists>k. int n \<le> 3 * k \<and> 3 * (k - 1) < int n \<and>
             optimalConcurrency c n = min c (min (int n) (max 5 k)) \<and>
             1 \<le> optimalConcurrency c n \<and> optimalConcurrency c n \<le> int n \<and>
             min c (min 5 (int n)) \<le> optimalConcurrency c n \<and>
             (5 \<le> n \<longrightarrow> 5 \<le> c \<longrightarrow> min 5 (int n) \<le> optimalConcurrency c n)"
proof (intro exI [of _ "(int n + 2) div 3"] conjI)
  show "int n \<le> 3 * ((int n + 2) div 3)"
    by presburger
  show "3 * ((int n + 2) div 3 - 1) < int n"
    by presburger
  show "optimalConcurrency c n = min c (min (int n) (max 5 ((int n + 2) div 3)))"
    by (simp add: optimalConcurrency_def ceiling_third)
  show "1 \<le> optimalConcurrency c n"
    using assms by (simp add: optimalConcurrency_def ceiling_third)
  show "optimalConcurrency c n \<le> int n"
    by (simp add: optimalConcurrency_def)
  show "min c (min 5 (int n)) \<le> optimalConcurrency c n"
    unfolding optimalConcurrency_def ceiling_third by linarith
  show "5 \<le> n \<longrightarrow> 5 \<le> c \<longrightarrow> min 5 (int n) \<le> optimalConcurrency c n"
    unfolding optimalConcurrency_def ceiling_third by linarith
qed

theorem optimalConcurrency_bounds_witness:
  "(1::int) \<le> 10 \<and> (1::nat) \<le> 7 \<and>
   (\<exists>k. int 7 \<le> 3 * k \<and> 3 * (k - 1) < int 7 \<and>
             optimalConcurrency 10 7 = min 10 (min (int 7) (max 5 k)) \<and>
             1 \<le> optimalConcurrency 10 7 \<and> optimalConcurrency 10 7 \<le> int 7 \<and>
             min 10 (min 5 (int 7)) \<le> optimalConcurrency 10 7 \<and>
             (5::nat) \<le> 7 \<and> (5::int) \<le> 10 \<and> min 5 (int 7) \<le> optimalConcurrency 10 7)"
  using optimalConcurrency_bounds [of 10 7] by simp


lemma slice_batch:
  assumes "0 \<le> i" and "i < int (length cs)" and "0 < opt"
  shows "slice cs i (i + opt) = take (nat opt) (drop (nat i) cs)"
proof (cases "i + opt \<le> int (length cs)")
  case True
  with assms show ?thesis
    by (simp add: slice_def Let_def min_def)
next
  case False
  with assms have "slice cs i (i + opt) = take (nat (int (length cs) - i)) (drop (nat i) cs)"
    by (simp add: slice_def Let_def min_def)
  moreover from False assms have "length (drop (nat i) cs) \<le> nat opt"
    and "length (drop (nat i) cs) \<le> nat (int (length cs) - i)"
    by simp_all
  ultimately show ?thesis
    by simp
qed

lemma issue_batch_upt:
  assumes "j \<le> length cs"
  shows "issue_batch backend j (take m (drop j cs)) =
         map (\<lambda>k. (settles_at (backend k (cs ! k)), getAudioChunk (backend k (cs ! k))))
           [j ..< min (j + m) (length cs)]"
proof (rule nth_equalityI)
  show "length (issue_batch backend j (take m (drop j cs))) =
        length (map (\<lambda>k. (settles_at (backend k (cs ! k)), getAudioChunk (backend k (cs ! k))))
           [j ..< min (j + m) (length cs)])"
    using assms by (simp add: issue_batch_def)
next
  fix p
  assume "p < length (issue_batch backend j (take m (drop j cs)))"
  then have p: "p < m" "p < length cs - j"
    by (simp_all add: issue_batch_def)
  then have "j + p < min (j + m) (length cs)"
    by simp
  then have "[j ..< min (j + m) (length cs)] ! p = j + p"
    by (rule nth_upt)
  then show "issue_batch backend j (take m (drop j cs)) ! p =
        map (\<lambda>k. (settles_at (backend k (cs ! k)), getAudioChunk (backend k (cs ! k))))
           [j ..< min (j + m) (length cs)] ! p"
    using assms p by (simp add: issue_batch_def)
qed

lemma first_rejection_fulfilled:
  "first_rejection (map (\<lambda>k. (t k, Inr (a k))) ks) = None"
  by (induction ks) simp_all

lemma fulfilled_values_map:
  "fulfilled_values (map (\<lambda>k. (t k, Inr (a k))) ks) = map a ks"
  by (induction ks) simp_all

lemma promise_all_fulfilled:
  assumes "\<forall>k \<in> set ks. r k = Inr (a k)"
  shows "promise_all (map (\<lambda>k. (t k, r k)) ks) = Inr (map a ks)"
proof -
  from assms have eq: "map (\<lambda>k. (t k, r k)) ks = map (\<lambda>k. (t k, Inr (a k))) ks"
    by simp
  show ?thesis
    unfolding eq by (simp add: promise_all_def first_rejection_fulfilled fulfilled_values_map)
qed



lemma batches_of_Nil: "batches_of n [] = []"
  by (simp add: batches_of.simps)

lemma batches_of_step:
  "0 < n \<Longrightarrow> xs \<noteq> [] \<Longrightarrow> batches_of n xs = take n xs # batches_of n (drop n xs)"
  by (subst batches_of.simps) simp

lemma concat_batches_of: "0 < n \<Longrightarrow> concat (batches_of n xs) = xs"
proof (induction n xs rule: batches_of.induct)
  case (1 n xs)
  then show ?case
    by (cases "xs = []") (simp_all add: batches_of_Nil batches_of_step)
qed

lemma upt_split: "a \<le> b \<Longrightarrow> b \<le> c \<Longrightarrow> [a ..< b] @ [b ..< c] = [a ..< (c::nat)]"
  using upt_add_eq_append [of a b "c - b"] by simp

lemma getVoice_loop_success:
  assumes "0 < opt" and "0 \<le> i"
    and "length (concat issued) = min (nat i) (length cs)"
    and "\<forall>k<length cs. getAudioChunk (backend k (cs ! k)) = Inr (audio k)"
  shows "getVoice_loop backend cs opt i acc issued =
         Some (Inr (acc @ map audio [min (nat i) (length cs) ..< length cs]),
               issued @ batches_of (nat opt) (drop (nat i) cs))"
  using assms(2,3)
proof (induction "length cs - nat i" arbitrary: i acc issued rule: less_induct)
  case less
  show ?case
  proof (cases "i < int (length cs)")
    case False
    with less.prems show ?thesis
      by (subst getVoice_loop.simps) (simp add: batches_of_Nil)
  next
    case True
    let ?j = "nat i"
    let ?j' = "min (?j + nat opt) (length cs)"
    let ?batch = "take (nat opt) (drop ?j cs)"
    from True less.prems have j: "?j < length cs" "length (concat issued) = ?j"
      by simp_all
    have batch: "slice cs i (i + opt) = ?batch"
      using less.prems(1) True assms(1) by (rule slice_batch)
    have "issue_batch backend ?j ?batch =
        map (\<lambda>k. (settles_at (backend k (cs ! k)), getAudioChunk (backend k (cs ! k)))) [?j ..< ?j']"
      using j(1) by (simp add: issue_batch_upt)
    moreover have "\<forall>k \<in> set [?j ..< ?j']. getAudioChunk (backend k (cs ! k)) = Inr (audio k)"
      using assms(4) by simp
    ultimately have all: "promise_all (issue_batch backend ?j ?batch) = Inr (map audio [?j ..< ?j'])"
      by (simp add: promise_all_fulfilled)
    have next_i: "nat (i + opt) = ?j + nat opt"
      using less.prems(1) assms(1) by simp
    have "length cs - nat (i + opt) < length cs - nat i"
      using j(1) assms(1) next_i by simp
    moreover have "0 \<le> i + opt"
      using less.prems(1) assms(1) by simp
    moreover have "length (concat (issued @ [?batch])) = min (nat (i + opt)) (length cs)"
      using j next_i by (simp add: min_def) linarith
    ultimately have "getVoice_loop backend cs opt (i + opt) (acc @ map audio [?j ..< ?j']) (issued @ [?batch]) =
        Some (Inr ((acc @ map audio [?j ..< ?j']) @ map audio [min (nat (i + opt)) (length cs) ..< length cs]),
              (issued @ [?batch]) @ batches_of (nat opt) (drop (nat (i + opt)) cs))"
      by (rule less.hyps)
    moreover have "[?j ..< ?j'] @ [?j' ..< length cs] = [?j ..< length cs]"
      using j(1) by (intro upt_split) simp_all
    then have "map audio [?j ..< ?j'] @ map audio [?j' ..< length cs] = map audio [?j ..< length cs]"
      by (metis map_append)
    moreover have "batches_of (nat opt) (drop ?j cs) = ?batch # batches_of (nat opt) (drop (?j + nat opt) cs)"
      using j(1) assms(1) by (simp add: batches_of_step add.commute)
    ultimately show ?thesis
      using True batch all j next_i
      by (subst getVoice_loop.simps) (simp add: Let_def)
  qed
qed


lemma pipe_loop_success:
  assumes "0 < opt" and "0 \<le> i"
    and "length (concat issued) = min (nat i) (length cs)"
    and "\<forall>k<length cs. getAudioChunk (backend k (cs ! k)) = Inr (audio k)"
  shows "pipe_loop backend cs opt i writer issued =
         Some (Inr (), writer @ map (\<lambda>k. Write (audio k)) [min (nat i) (length cs) ..< length cs],
               issued @ batches_of (nat opt) (drop (nat i) cs))"
  using assms(2,3)
proof (induction "length cs - nat i" arbitrary: i writer issued rule: less_induct)
  case less
  show ?case
  proof (cases "i < int (length cs)")
    case False
    with less.prems show ?thesis
      by (subst pipe_loop.simps) (simp add: batches_of_Nil)
  next
    case True
    let ?j = "nat i"
    let ?j' = "min (?j + nat opt) (length cs)"
    let ?batch = "take (nat opt) (drop ?j cs)"
    let ?w = "writer @ map Write (map audio [?j ..< ?j'])"
    from True less.prems have j: "?j < length cs" "length (concat issued) = ?j"
      by simp_all
    have batch: "slice cs i (i + opt) = ?batch"
      using less.prems(1) True assms(1) by (rule slice_batch)
    have "issue_batch backend ?j ?batch =
        map (\<lambda>k. (settles_at (backend k (cs ! k)), getAudioChunk (backend k (cs ! k)))) [?j ..< ?j']"
      using j(1) by (simp add: issue_batch_upt)
    moreover have "\<forall>k \<in> set [?j ..< ?j']. getAudioChunk (backend k (cs ! k)) = Inr (audio k)"
      using assms(4) by simp
    ultimately have all: "promise_all (issue_batch backend ?j ?batch) = Inr (map audio [?j ..< ?j'])"
      by (simp add: promise_all_fulfilled)
    have next_i: "nat (i + opt) = ?j + nat opt"
      using less.prems(1) assms(1) by simp
    have "length cs - nat (i + opt) < length cs - nat i"
      using j(1) assms(1) next_i by simp
    moreover have "0 \<le> i + opt"
      using less.prems(1) assms(1) by simp
    moreover have "length (concat (issued @ [?batch])) = min (nat (i + opt)) (length cs)"
      using j next_i by (simp add: min_def) linarith
    ultimately have "pipe_loop backend cs opt (i + opt) ?w (issued @ [?batch]) =
        Some (Inr (), ?w @ map (\<lambda>k. Write (audio k)) [min (nat (i + opt)) (length cs) ..< length cs],
              (issued @ [?batch]) @ batches_of (nat opt) (drop (nat (i + opt)) cs))"
      by (rule less.hyps)
    moreover have "[?j ..< ?j'] @ [?j' ..< length cs] = [?j ..< length cs]"
      using j(1) by (intro upt_split) simp_all
    then have "map (\<lambda>k. Write (audio k)) [?j ..< ?j'] @ map (\<lambda>k. Write (audio k)) [?j' ..< length cs] =
        map (\<lambda>k. Write (audio k)) [?j ..< length cs]"
      by (metis map_append)
    moreover have "batches_of (nat opt) (drop ?j cs) = ?batch # batches_of (nat opt) (drop (?j + nat opt) cs)"
      using j(1) assms(1) by (simp add: batches_of_step add.commute)
    ultimately show ?thesis
      using True batch all j next_i
      by (subst pipe_loop.simps) (simp add: Let_def comp_def)
  qed
qed



text \<open>
  C6: for every chunk list, every requested concurrency of at least 1 and every assignment
  of settling instants to the calls (they are part of the backend, which is arbitrary), if
  every call is fulfilled then the output follows the input order in both modes: the body
  returned by \<^verbatim>\<open>getVoice\<close> is the audio of unit 0, unit 1, ... concatenated, the stream
  receives one write per unit in that order followed by one close, and the batches issued
  are the consecutive batches of the size of the effective concurrency.
\<close>

theorem output_order_matches_input:
  assumes "1 \<le> concurrency"
    and "\<forall>k<length chunks. getAudioChunk (backend k (chunks ! k)) = Inr (audio k)"
  shows "getVoice backend chunks concurrency =
           Some (\<lparr>res_status = 200, res_content_type = ''audio/mpeg'',
                  res_body = AudioBody (concat (map audio [0 ..< length chunks]))\<rparr>,
                 batches_of (nat (optimalConcurrency concurrency (length chunks))) chunks) \<and>
         pipeChunksToStream backend chunks concurrency =
           Some (Inr (), map (\<lambda>k. Write (audio k)) [0 ..< length chunks] @ [Close],
                 batches_of (nat (optimalConcurrency concurrency (length chunks))) chunks)"
proof (cases "chunks = []")
  case True
  then show ?thesis
    by (simp add: getVoice_def pipeChunksToStream_def getVoice_loop.simps pipe_loop.simps
        batches_of_Nil)
next
  case False
  let ?opt = "optimalConcurrency concurrency (length chunks)"
  from False assms(1) have opt: "0 < ?opt"
    by (intro optimalConcurrency_pos) (simp_all add: Suc_le_eq)
  have start: "(0::int) \<le> 0" "length (concat ([]::'a list list)) = min (nat 0) (length chunks)"
    by simp_all
  have "getVoice_loop backend chunks ?opt 0 [] [] =
      Some (Inr ([] @ map audio [min (nat 0) (length chunks) ..< length chunks]),
            [] @ batches_of (nat ?opt) (drop (nat 0) chunks))"
    using opt start assms(2) by (rule getVoice_loop_success)
  moreover have "pipe_loop backend chunks ?opt 0 [] [] =
      Some (Inr (), [] @ map (\<lambda>k. Write (audio k)) [min (nat 0) (length chunks) ..< length chunks],
            [] @ batches_of (nat ?opt) (drop (nat 0) chunks))"
    using opt start assms(2) by (rule pipe_loop_success)
  ultimately show ?thesis
    by (simp add: getVoice_def pipeChunksToStream_def)
qed

text \<open>
  The loops are not total: with a requested concurrency of 0 and at least one chunk the
  step of \<^verbatim>\<open>getVoice\<close>'s loop is 0, every batch is empty, and the loop never ends.
\<close>

lemma getVoice_loop_zero_step:
  assumes "chunks \<noteq> []"
  shows "getVoice_loop backend chunks 0 0 acc issued = None"
proof -
  have "\<forall>acc issued. getVoice_loop backend chunks 0 0 acc issued = None"
  proof (rule getVoice_loop.fixp_induct [where P = "\<lambda>f.
      \<forall>acc issued. f backend chunks 0 0 acc issued = None"])
    show "option.admissible (\<lambda>g. \<forall>acc issued.
        curry (curry (curry (curry (curry g)))) backend chunks 0 0 acc issued = None)"
      unfolding ccpo.admissible_def fun_lub_def flat_lub_def by auto
  next
    show "\<forall>acc issued. (\<lambda>backend chunks optimal i acc issued. None) backend chunks 0 0 acc issued = None"
      by simp
  next
    fix f :: "(nat \<Rightarrow> 'a \<Rightarrow> audio_call) \<Rightarrow> 'a list \<Rightarrow> int \<Rightarrow> int \<Rightarrow> bytes list \<Rightarrow> 'a list list \<Rightarrow>
      ((message + bytes list) \<times> 'a list list) option"
    assume IH: "\<forall>acc issued. f backend chunks 0 0 acc issued = None"
    show "\<forall>acc issued. (\<lambda>a aa b c d e.
           if c < int (length aa)
           then let batch = slice aa c (c + b);
                    audioPromises = issue_batch a (length (concat e)) batch
                in case promise_all audioPromises of
                   Inl error \<Rightarrow> Some (Inl error, e @ [batch])
                   | Inr audioBlobs \<Rightarrow>
                       f a aa b (c + b) (d @ audioBlobs) (e @ [batch])
           else Some (Inr d, e)) backend chunks 0 0 acc issued = None"
      using assms IH by (simp add: slice_def issue_batch_def promise_all_def)
  qed
  then show ?thesis
    by simp
qed

lemma getVoice_zero_concurrency_never_returns:
  "chunks \<noteq> [] \<Longrightarrow> getVoice backend chunks 0 = None"
  by (simp add: getVoice_def optimalConcurrency_def getVoice_loop_zero_step)

text \<open>
  C10: for the empty chunk list and any requested concurrency, \<^verbatim>\<open>getVoice\<close> issues no
  batch and returns a 200 \<^verbatim>\<open>audio/mpeg\<close> response with an empty body, and
  \<^verbatim>\<open>pipeChunksToStream\<close> issues no batch, writes nothing, closes the stream once and
  returns normally.
\<close>

theorem empty_chunk_list_succeeds:
  "getVoice backend [] concurrency =
     Some (\<lparr>res_status = 200, res_content_type = ''audio/mpeg'', res_body = AudioBody []\<rparr>, []) \<and>
   pipeChunksToStream backend [] concurrency = Some (Inr (), [Close], [])"
  by (simp add: getVoice_def pipeChunksToStream_def getVoice_loop.simps pipe_loop.simps)


text \<open>
  Seven units with a requested concurrency of 3, settling in the order 0, 5, 3, 1, 6, 4, 2:
  the batches are \<open>[0,1,2]\<close>, \<open>[3,4,5]\<close>, \<open>[6]\<close>.
\<close>

theorem output_order_matches_input_witness:
  "(1::int) \<le> 3 \<and>
   getVoice seven_units_backend [0 ..< 7] 3 =
     Some (\<lparr>res_status = 200, res_content_type = ''audio/mpeg'',
            res_body = AudioBody [0, 1, 2, 3, 4, 5, 6]\<rparr>,
           [[0, 1, 2], [3, 4, 5], [6]]) \<and>
   pipeChunksToStream seven_units_backend [0 ..< 7] 3 =
     Some (Inr (), [Write [0], Write [1], Write [2], Write [3], Write [4], Write [5], Write [6], Close],
           [[0, 1, 2], [3, 4, 5], [6]])"
proof -
  have ok: "\<forall>k<length [0 ..< 7]. getAudioChunk (seven_units_backend k ([0 ..< 7] ! k)) = Inr [of_nat k]"
    by (simp add: getAudioChunk_def seven_units_backend_def reply_ok_def)
  have batches: "batches_of (nat (optimalConcurrency 3 (length [0 ..< 7::nat]))) [0 ..< 7::nat] =
      [[0, 1, 2], [3, 4, 5], [6]]"
    by code_simp
  have audio: "concat (map (\<lambda>k. [of_nat k]) [0 ..< length [0 ..< 7::nat]]) = [0, 1, 2, 3, 4, 5, 6 :: 8 word]"
    by code_simp
  have writes: "map (\<lambda>k. Write [of_nat k]) [0 ..< length [0 ..< 7::nat]] @ [Close] =
      [Write [0], Write [1], Write [2], Write [3], Write [4], Write [5], Write [6], Close]"
    by code_simp
  from output_order_matches_input [of 3 "[0 ..< 7]" seven_units_backend "\<lambda>k. [of_nat k]", OF _ ok]
  show ?thesis
    by (simp only: batches audio writes) simp
qed


text \<open>
  The calls that the writer receives, for every backend and every requested concurrency:
  whenever \<^verbatim>\<open>pipeChunksToStream\<close> returns normally the writer has received writes and then
  one \<^verbatim>\<open>close\<close>; whenever it throws, the writer has received writes, then \<^verbatim>\<open>abort\<close>
  and then \<^verbatim>\<open>close\<close>.
\<close>

lemma pipe_loop_writes:
  assumes "pipe_loop backend chunks optimal i writer issued = Some y"
  shows "\<exists>blobs. fst (snd y) = writer @ map Write blobs"
proof (rule pipe_loop.raw_induct [where P = "\<lambda>backend chunks optimal i writer issued y.
    \<exists>blobs. fst (snd y) = writer @ map Write blobs", OF _ assms])
  fix f :: "(nat \<Rightarrow> 'a \<Rightarrow> audio_call) \<Rightarrow> 'a list \<Rightarrow> int \<Rightarrow> int \<Rightarrow> writer_op list \<Rightarrow> 'a list list \<Rightarrow>
      ((message + unit) \<times> writer_op list \<times> 'a list list) option"
  fix backend chunks optimal i writer issued y
  assume IH: "\<And>backend chunks optimal i writer issued y.
      f backend chunks optimal i writer issued = Some y \<Longrightarrow>
      \<exists>blobs. fst (snd y) = writer @ map Write blobs"
  assume body: "(if i < int (length chunks) then
        (let batch = slice chunks i (i + optimal);
             audioPromises = issue_batch backend (length (concat issued)) batch
         in case promise_all audioPromises of
              Inl error \<Rightarrow> Some (Inl error, writer, issued @ [batch])
            | Inr audioBlobs \<Rightarrow>
                f backend chunks optimal (i + optimal)
                  (writer @ map Write audioBlobs) (issued @ [batch]))
      else Some (Inr (), writer, issued)) = Some y"
  show "\<exists>blobs. fst (snd y) = writer @ map Write blobs"
  proof (cases "i < int (length chunks)")
    case False
    with body have "fst (snd y) = writer @ map Write []"
      by auto
    then show ?thesis by blast
  next
    case True
    let ?batch = "slice chunks i (i + optimal)"
    show ?thesis
    proof (cases "promise_all (issue_batch backend (length (concat issued)) ?batch)")
      case (Inl error)
      with True body have "fst (snd y) = writer @ map Write []"
        by (auto simp: Let_def)
      then show ?thesis by blast
    next
      case (Inr audioBlobs)
      with True body have "f backend chunks optimal (i + optimal) (writer @ map Write audioBlobs)
          (issued @ [?batch]) = Some y"
        by (simp add: Let_def)
      from IH [OF this] obtain blobs where
        "fst (snd y) = (writer @ map Write audioBlobs) @ map Write blobs"
        by blast
      then have "fst (snd y) = writer @ map Write (audioBlobs @ blobs)"
        by simp
      then show ?thesis by blast
    qed
  qed
qed

lemma pipeChunksToStream_writer_calls:
  assumes "pipeChunksToStream backend chunks concurrency = Some (outcome, writer, issued)"
  shows "\<exists>blobs. case outcome of
           Inr done \<Rightarrow> writer = map Write blobs @ [Close]
         | Inl m \<Rightarrow> \<exists>error. m = StreamProcessingFailed error \<and>
                       writer = map Write blobs @ [Abort error, Close]"
proof (cases "pipe_loop backend chunks (optimalConcurrency concurrency (length chunks)) 0 [] []")
  case None
  with assms show ?thesis
    by (simp add: pipeChunksToStream_def)
next
  case (Some y)
  obtain r w iss where y: "y = (r, w, iss)"
    by (cases y)
  from pipe_loop_writes [OF Some] y obtain blobs where w: "w = map Write blobs"
    by auto
  show ?thesis
  proof (cases r)
    case (Inl error)
    with assms Some y w show ?thesis
      by (intro exI [of _ blobs]) (auto simp: pipeChunksToStream_def)
  next
    case (Inr u)
    with assms Some y w show ?thesis
      by (intro exI [of _ blobs]) (auto simp: pipeChunksToStream_def)
  qed
qed

text \<open>
  C5 (the code at the failing input): one chunk whose synthesis call is answered with
  HTTP 500. The \<^verbatim>\<open>catch\<close> block aborts the writer and the \<^verbatim>\<open>finally\<close> block then
  closes it as well: two terminal calls on the failure path.
\<close>

theorem pipeChunksToStream_abort_then_close:
  "pipeChunksToStream (\<lambda>k chunk. reply_http_error 0 500) [''a''] 1 =
     Some (Inl (StreamProcessingFailed (EdgeTtsApiError 500 ''Error'' ''unavailable'')),
           [Abort (EdgeTtsApiError 500 ''Error'' ''unavailable''), Close],
           [[''a'']])"
  by code_simp

section \<open>Properties of the credential cache\<close>



























text \<open>
  The invariant needs the absence of \<^verbatim>\<open>clearTokenCache\<close>: a call of it while a refresh
  is in flight clears the flag, and the next caller starts a second refresh beside the
  first.
\<close>

lemma clearTokenCache_race:
  "in_flight (snd (run [Call 0, ClearTokenCache, Call 1] auth_init)) = [0, 1] \<and>
   fst (run [Call 0, ClearTokenCache, Call 1] auth_init) = [Awaiting 0, Awaiting 1]"
  by code_simp



text \<open>
  C9: in any state, a call of \<^verbatim>\<open>getEndpoint\<close> at a clock reading \<open>now \<ge> 0\<close> with a token
  present (a non-empty string) and \<open>now < expiredAt - 300\<close> returns the cached endpoint at
  once and leaves the whole state as it is: \<^verbatim>\<open>tokenInfo\<close>, the flag, the stored promise,
  and the record of refreshes and of their requests (no refresh is started and nothing is
  sent).
\<close>

theorem getEndpoint_cached:
  assumes "token (tokenInfo s) = Some tok" and "tok \<noteq> []"
    and "expiredAt (tokenInfo s) = Some e" and "0 \<le> now" and "now < e - 300"
  shows "getEndpoint now s = (Resolved (endpoint (tokenInfo s)), s) \<and>
         step (Call now) (returned, s) = (returned @ [Resolved (endpoint (tokenInfo s))], s) \<and>
         observed s (Resolved (endpoint (tokenInfo s))) = Some (Inr (endpoint (tokenInfo s)))"
proof -
  from assms have "token_valid (tokenInfo s) now"
    by (auto simp: token_valid_def TOKEN_REFRESH_BEFORE_EXPIRY_def)
  then show ?thesis
    by (simp add: getEndpoint_def observed_def)
qed

theorem getEndpoint_cached_witness:
  "token (tokenInfo (snd (run [Call 0, SignSettled 0 (Inr ()),
       FetchSettled 0 (TokenData example_endpoint (Claims (Some 1000)))] auth_init))) = Some ''h.p.s'' \<and>
   ''h.p.s'' \<noteq> [] \<and>
   expiredAt (tokenInfo (snd (run [Call 0, SignSettled 0 (Inr ()),
       FetchSettled 0 (TokenData example_endpoint (Claims (Some 1000)))] auth_init))) = Some 1000 \<and>
   (0::rat) \<le> 600 \<and> (600::rat) < 1000 - 300 \<and>
   getEndpoint 600 (snd (run [Call 0, SignSettled 0 (Inr ()),
       FetchSettled 0 (TokenData example_endpoint (Claims (Some 1000)))] auth_init)) =
     (Resolved (Some example_endpoint),
      snd (run [Call 0, SignSettled 0 (Inr ()),
       FetchSettled 0 (TokenData example_endpoint (Claims (Some 1000)))] auth_init))"
proof -
  let ?s = "snd (run [Call 0, SignSettled 0 (Inr ()),
       FetchSettled 0 (TokenData example_endpoint (Claims (Some 1000)))] auth_init)"
  have h1: "token (tokenInfo ?s) = Some ''h.p.s''"
    by code_simp
  have h2: "''h.p.s'' \<noteq> []"
    by simp
  have h3: "expiredAt (tokenInfo ?s) = Some 1000"
    by code_simp
  have h4: "(0::rat) \<le> 600"
    by simp
  have h5: "(600::rat) < 1000 - 300"
    by simp
  have e: "endpoint (tokenInfo ?s) = Some example_endpoint"
    by code_simp
  from getEndpoint_cached [OF h1 h2 h3 h4 h5]
  have "getEndpoint 600 ?s = (Resolved (endpoint (tokenInfo ?s)), ?s)"
    by blast
  with h1 h2 h3 h4 h5 show ?thesis
    unfolding e by blast
qed

end
